theory Spec2Isabelle
  imports Complex_Main "HOL-Library.Sublist"
begin

section \<open>OutlineIQ: the outline extractor of utils.py\<close>

text \<open>
  The development embeds \<^verbatim>\<open>extract_outline\<close>, \<^verbatim>\<open>_normalize_text\<close> and
  \<^verbatim>\<open>_make_image_preview\<close> of \<^verbatim>\<open>utils.py\<close>. What PyMuPDF and Pillow return is data
  of the model: every call that the source wraps in \<^verbatim>\<open>try\<close> may yield an exception there
  (\<^verbatim>\<open>fitz.open\<close>, \<^verbatim>\<open>get_images\<close>, \<^verbatim>\<open>extract_image\<close>, the preview, \<^verbatim>\<open>get_links\<close>,
  \<^verbatim>\<open>get_text\<close>, and \<^verbatim>\<open>float\<close> on a span's size), and so may the two steps that are
  under the \<^verbatim>\<open>finally\<close> clause only: the access to \<^verbatim>\<open>doc.metadata\<close> and the loading
  of a page by the iteration. The values returned are otherwise well-typed, as PyMuPDF
  delivers them: a text is a string and an image entry has its xref.

  Font sizes and thresholds are Python floats. They are modelled as reals, so NaN and the
  infinities are outside the model, and \<^verbatim>\<open>round(x, 2)\<close> is the exact
  round-half-to-even on two decimals. Strings are lists of characters, a character being a
  code point below 256.
\<close>

subsection \<open>Python strings\<close>

text \<open>The characters below 256 for which \<^verbatim>\<open>str.isspace\<close> holds.\<close>

definition is_space :: "char \<Rightarrow> bool" where
  "is_space c = (c \<in> set [CHR 0x09, CHR 0x0A, CHR 0x0B, CHR 0x0C, CHR 0x0D,
                            CHR 0x1C, CHR 0x1D, CHR 0x1E, CHR 0x1F, CHR 0x20,
                            CHR 0x85, CHR 0xA0])"

text \<open>\<^verbatim>\<open>s.strip()\<close>: whitespace removed at both ends.\<close>

definition py_strip :: "string \<Rightarrow> string" where
  "py_strip s = rev (dropWhile is_space (rev (dropWhile is_space s)))"

text \<open>\<^verbatim>\<open>s.split()\<close>: the maximal runs of non-whitespace characters, in order.\<close>

function py_split :: "string \<Rightarrow> string list" where
  "py_split s =
     (case dropWhile is_space s of
        [] \<Rightarrow> []
      | c # cs \<Rightarrow> takeWhile (\<lambda>x. \<not> is_space x) (c # cs)
                   # py_split (dropWhile (\<lambda>x. \<not> is_space x) cs))"
  by pat_completeness auto
termination
proof (relation "measure length")
  show "wf (measure length)" by simp
next
  fix s :: string and c cs
  assume "dropWhile is_space s = c # cs"
  then have "length (c # cs) \<le> length s"
    by (metis length_dropWhile_le)
  moreover have "length (dropWhile (\<lambda>x. \<not> is_space x) cs) \<le> length cs"
    by (rule length_dropWhile_le)
  ultimately show "(dropWhile (\<lambda>x. \<not> is_space x) cs, s) \<in> measure length"
    by simp
qed

declare py_split.simps [simp del]

text \<open>\<^verbatim>\<open>sep.join(xs)\<close>.\<close>

fun py_join :: "string \<Rightarrow> string list \<Rightarrow> string" where
  "py_join sep [] = []"
| "py_join sep [x] = x"
| "py_join sep (x # y # ys) = x @ sep @ py_join sep (y # ys)"

text \<open>
  \<^verbatim>\<open>s.lower()\<close> on code points below 256: the letters A-Z and the Latin-1
  capitals 0xC0-0xDE (without the sign 0xD7) each have a lowercase code point 32 higher.
\<close>

definition upper_chars :: "char list" where
  "upper_chars = ''ABCDEFGHIJKLMNOPQRSTUVWXYZ'' @
     [CHR 0xC0, CHR 0xC1, CHR 0xC2, CHR 0xC3, CHR 0xC4, CHR 0xC5, CHR 0xC6,
      CHR 0xC7, CHR 0xC8, CHR 0xC9, CHR 0xCA, CHR 0xCB, CHR 0xCC, CHR 0xCD,
      CHR 0xCE, CHR 0xCF, CHR 0xD0, CHR 0xD1, CHR 0xD2, CHR 0xD3, CHR 0xD4,
      CHR 0xD5, CHR 0xD6, CHR 0xD8, CHR 0xD9, CHR 0xDA, CHR 0xDB, CHR 0xDC,
      CHR 0xDD, CHR 0xDE]"

definition lower_chars :: "char list" where
  "lower_chars = ''abcdefghijklmnopqrstuvwxyz'' @
     [CHR 0xE0, CHR 0xE1, CHR 0xE2, CHR 0xE3, CHR 0xE4, CHR 0xE5, CHR 0xE6,
      CHR 0xE7, CHR 0xE8, CHR 0xE9, CHR 0xEA, CHR 0xEB, CHR 0xEC, CHR 0xED,
      CHR 0xEE, CHR 0xEF, CHR 0xF0, CHR 0xF1, CHR 0xF2, CHR 0xF3, CHR 0xF4,
      CHR 0xF5, CHR 0xF6, CHR 0xF8, CHR 0xF9, CHR 0xFA, CHR 0xFB, CHR 0xFC,
      CHR 0xFD, CHR 0xFE]"

definition lower_char :: "char \<Rightarrow> char" where
  "lower_char c = (case map_of (zip upper_chars lower_chars) c of None \<Rightarrow> c | Some d \<Rightarrow> d)"

definition py_lower :: "string \<Rightarrow> string" where
  "py_lower s = map lower_char s"

text \<open>\<^verbatim>\<open>_normalize_text\<close>: \<^verbatim>\<open>" ".join(s.split()).strip()\<close>.\<close>

definition normalize_text :: "string \<Rightarrow> string" where
  "normalize_text s = py_strip (py_join '' '' (py_split s))"

subsection \<open>Exceptions and the data PyMuPDF returns\<close>

datatype exn = FileDataError | RuntimeError | ValueError | TypeError | OSError | AttributeError

text \<open>
  The value under a span's \<^verbatim>\<open>"size"\<close> key: absent, a value that \<^verbatim>\<open>float()\<close>
  converts, or a value on which \<^verbatim>\<open>float()\<close> raises.
\<close>

datatype size_val = SizeMissing | SizeNum real | SizeBad

datatype span = Span (span_text: "string option") (span_size: size_val)

datatype line = Line (line_spans: "span list option")

datatype block = Block (block_lines: "line list option")

datatype page_dict = PageDict (pd_blocks: "block list option")

datatype image_meta = ImageMeta (im_xref: nat)

datatype link = Link (link_uri: "string option")

datatype page = Page
  (get_images: "exn + image_meta list")
  (get_links: "exn + link list")
  (get_text: "exn + page_dict")

text \<open>
  A document that \<^verbatim>\<open>fitz.open\<close> has returned. Its \<^verbatim>\<open>metadata\<close> is \<^verbatim>\<open>None\<close> on an
  encrypted document that still needs its password, and otherwise a dictionary, given by
  what it holds under \<^verbatim>\<open>"title"\<close>. Loading a page, as the iteration over the document
  does, gives the page or raises. The last field is \<^verbatim>\<open>doc.extract_image(xref)\<close> followed
  by \<^verbatim>\<open>.get("image")\<close>.
\<close>

datatype document = Document
  (doc_metadata: "string option option")
  (doc_pages: "(exn + page) list")
  (extract_image: "nat \<Rightarrow> exn + string option")

datatype source = SourcePath string | SourceBytes string

text \<open>
  The libraries: \<^verbatim>\<open>fitz.open\<close> on a byte buffer and on a path, and Pillow's decoding,
  conversion, thumbnail and PNG encoding followed by base64, which gives the text after
  the comma of the data URI.
\<close>

datatype libs = Libs
  (open_stream: "string \<Rightarrow> exn + document")
  (open_path: "string \<Rightarrow> exn + document")
  (png_thumbnail_b64: "string \<Rightarrow> int \<Rightarrow> exn + string")

subsection \<open>Options and results\<close>

datatype options = Options
  (min_h1: real) (min_h2: real) (min_h3: real)
  (image_preview_max_size: int)
  (detect_first_image_only: bool)

definition default_options :: options where
  "default_options = Options 18 14 10 160 True"

datatype level = H1 | H2 | H3

datatype heading = Heading
  (h_level: level) (h_text: string) (h_page: nat) (h_font_size: real)

datatype link_ref = LinkRef (lr_page: nat) (lr_uri: string)

datatype image_preview = ImagePreview (ip_page: nat) (ip_preview: string)

datatype metadata = Metadata
  (pages_with_images: "nat list")
  (links: "link_ref list")
  (image_previews: "image_preview list")

subsection \<open>The image preview\<close>

definition make_image_preview :: "libs \<Rightarrow> string \<Rightarrow> int \<Rightarrow> exn + string" where
  "make_image_preview L img_bytes max_size =
     (case png_thumbnail_b64 L img_bytes max_size of
        Inl e \<Rightarrow> Inl e
      | Inr b64 \<Rightarrow> Inr (''data:image/png;base64,'' @ b64))"

text \<open>The body of the inner \<^verbatim>\<open>try\<close> of the image loop; \<^verbatim>\<open>Inr None\<close> when no preview is made.\<close>

definition preview_try :: "libs \<Rightarrow> options \<Rightarrow> document \<Rightarrow> image_meta \<Rightarrow> exn + string option" where
  "preview_try L opts doc img_meta =
     (case extract_image doc (im_xref img_meta) of
        Inl e \<Rightarrow> Inl e
      | Inr img_bytes \<Rightarrow>
          (case img_bytes of
             None \<Rightarrow> Inr None
           | Some b \<Rightarrow>
               if b = [] then Inr None
               else (case make_image_preview L b (image_preview_max_size opts) of
                       Inl e \<Rightarrow> Inl e
                     | Inr preview \<Rightarrow> Inr (Some preview))))"

subsection \<open>The heading of a line\<close>

text \<open>\<^verbatim>\<open>float(span.get("size", 0))\<close>.\<close>

fun float_size :: "size_val \<Rightarrow> exn + real" where
  "float_size SizeMissing = Inr 0"
| "float_size (SizeNum r) = Inr r"
| "float_size SizeBad = Inl ValueError"

text \<open>
  \<^verbatim>\<open>max(float(span.get("size", 0)) for span in spans)\<close>: the first conversion that raises
  ends the evaluation, and \<^verbatim>\<open>max\<close> of nothing raises.
\<close>

fun float_sizes :: "span list \<Rightarrow> exn + real list" where
  "float_sizes [] = Inr []"
| "float_sizes (sp # sps) =
     (case float_size (span_size sp) of
        Inl e \<Rightarrow> Inl e
      | Inr r \<Rightarrow> (case float_sizes sps of Inl e \<Rightarrow> Inl e | Inr rs \<Rightarrow> Inr (r # rs)))"

definition max_try :: "span list \<Rightarrow> exn + real" where
  "max_try sps =
     (case float_sizes sps of
        Inl e \<Rightarrow> Inl e
      | Inr [] \<Rightarrow> Inl ValueError
      | Inr (r # rs) \<Rightarrow> Inr (fold max rs r))"

definition max_font :: "span list \<Rightarrow> real" where
  "max_font sps = (case max_try sps of Inl e \<Rightarrow> 0 | Inr m \<Rightarrow> m)"

text \<open>The \<^verbatim>\<open>if\<close>/\<open>elif\<close> chain on \<^verbatim>\<open>max_font\<close>.\<close>

definition classify :: "options \<Rightarrow> real \<Rightarrow> level option" where
  "classify opts s =
     (if s \<ge> min_h1 opts then Some H1
      else if s \<ge> min_h2 opts then Some H2
      else if s \<ge> min_h3 opts then Some H3
      else None)"

text \<open>\<^verbatim>\<open>round(x, 2)\<close> on exact values: the nearest multiple of 1/100, a tie going to the even one.\<close>

definition round_half_even :: "real \<Rightarrow> int" where
  "round_half_even x =
     (let f = \<lfloor>x\<rfloor>; d = x - of_int f
      in if d < 1 / 2 then f
         else if d > 1 / 2 then f + 1
         else if even f then f else f + 1)"

definition py_round2 :: "real \<Rightarrow> real" where
  "py_round2 x = of_int (round_half_even (x * 100)) / 100"

text \<open>\<^verbatim>\<open>span.get("text", "")\<close> and \<^verbatim>\<open>" ".join(... for span in spans).strip()\<close>.\<close>

definition span_text_or_empty :: "span \<Rightarrow> string" where
  "span_text_or_empty sp = (case span_text sp of None \<Rightarrow> [] | Some t \<Rightarrow> t)"

definition line_text :: "span list \<Rightarrow> string" where
  "line_text sps = py_strip (py_join '' '' (map span_text_or_empty sps))"

text \<open>One turn of the loop over the lines of a block.\<close>

definition scan_line :: "options \<Rightarrow> nat \<Rightarrow> line \<Rightarrow> heading list \<Rightarrow> heading list" where
  "scan_line opts page_number lin headings =
     (let sps = (case line_spans lin of None \<Rightarrow> [] | Some s \<Rightarrow> s)
      in if sps = [] then headings
         else let text = line_text sps
              in if text = [] then headings
                 else let mf = max_font sps
                      in (case classify opts mf of
                            None \<Rightarrow> headings
                          | Some lv \<Rightarrow>
                              headings @ [Heading lv (normalize_text text) page_number (py_round2 mf)]))"

definition scan_block :: "options \<Rightarrow> nat \<Rightarrow> block \<Rightarrow> heading list \<Rightarrow> heading list" where
  "scan_block opts page_number blk headings =
     (case block_lines blk of
        None \<Rightarrow> headings
      | Some lns \<Rightarrow> fold (scan_line opts page_number) lns headings)"

subsection \<open>The loop over the pages\<close>

text \<open>The four accumulators of \<^verbatim>\<open>extract_outline\<close>.\<close>

datatype acc = Acc
  (acc_headings: "heading list")
  (acc_pages_with_images: "nat set")
  (acc_links: "link_ref list")
  (acc_image_previews: "image_preview list")

text \<open>The loop over \<^verbatim>\<open>imgs_to_process\<close>: an exception of one image is logged and dropped.\<close>

definition scan_image ::
  "libs \<Rightarrow> options \<Rightarrow> document \<Rightarrow> nat \<Rightarrow> image_meta \<Rightarrow> image_preview list \<Rightarrow> image_preview list" where
  "scan_image L opts doc page_number img_meta previews =
     (case preview_try L opts doc img_meta of
        Inl e \<Rightarrow> previews
      | Inr None \<Rightarrow> previews
      | Inr (Some preview) \<Rightarrow> previews @ [ImagePreview page_number preview])"

definition scan_images :: "libs \<Rightarrow> options \<Rightarrow> document \<Rightarrow> nat \<Rightarrow> page \<Rightarrow> acc \<Rightarrow> acc" where
  "scan_images L opts doc page_number pg a =
     (case get_images pg of
        Inl e \<Rightarrow> a
      | Inr images \<Rightarrow>
          if images = [] then a
          else let imgs_to_process = (if detect_first_image_only opts then take 1 images else images)
               in Acc (acc_headings a)
                      (insert page_number (acc_pages_with_images a))
                      (acc_links a)
                      (fold (scan_image L opts doc page_number) imgs_to_process
                         (acc_image_previews a)))"

definition scan_link :: "nat \<Rightarrow> link \<Rightarrow> link_ref list \<Rightarrow> link_ref list" where
  "scan_link page_number lk lrs =
     (case link_uri lk of
        None \<Rightarrow> lrs
      | Some uri \<Rightarrow> if uri = [] then lrs else lrs @ [LinkRef page_number uri])"

definition scan_links :: "nat \<Rightarrow> page \<Rightarrow> acc \<Rightarrow> acc" where
  "scan_links page_number pg a =
     (case get_links pg of
        Inl e \<Rightarrow> a
      | Inr lks \<Rightarrow>
          Acc (acc_headings a) (acc_pages_with_images a)
              (fold (scan_link page_number) lks (acc_links a))
              (acc_image_previews a))"

definition scan_headings :: "options \<Rightarrow> nat \<Rightarrow> page \<Rightarrow> acc \<Rightarrow> acc" where
  "scan_headings opts page_number pg a =
     (case get_text pg of
        Inl e \<Rightarrow> a
      | Inr page_dict \<Rightarrow>
          let blocks = (case pd_blocks page_dict of None \<Rightarrow> [] | Some bs \<Rightarrow> bs)
          in Acc (fold (scan_block opts page_number) blocks (acc_headings a))
                 (acc_pages_with_images a) (acc_links a) (acc_image_previews a))"

definition scan_page :: "libs \<Rightarrow> options \<Rightarrow> document \<Rightarrow> nat \<times> page \<Rightarrow> acc \<Rightarrow> acc" where
  "scan_page L opts doc np a =
     scan_headings opts (fst np) (snd np)
       (scan_links (fst np) (snd np)
          (scan_images L opts doc (fst np) (snd np) a))"

text \<open>\<^verbatim>\<open>enumerate(doc, start=1)\<close>.\<close>

definition enumerate1 :: "'a list \<Rightarrow> (nat \<times> 'a) list" where
  "enumerate1 xs = zip [1 ..< Suc (length xs)] xs"

subsection \<open>Deduplication\<close>

definition heading_key :: "heading \<Rightarrow> level \<times> string \<times> nat" where
  "heading_key h = (h_level h, py_lower (h_text h), h_page h)"

text \<open>The loop over \<^verbatim>\<open>headings\<close> with its two variables \<^verbatim>\<open>seen\<close> and \<^verbatim>\<open>deduped_headings\<close>.\<close>

fun dedup_loop ::
  "(level \<times> string \<times> nat) set \<Rightarrow> heading list \<Rightarrow> heading list \<Rightarrow> heading list" where
  "dedup_loop seen deduped_headings [] = deduped_headings"
| "dedup_loop seen deduped_headings (h # hs) =
     (let key = heading_key h
      in if key \<notin> seen then dedup_loop (insert key seen) (deduped_headings @ [h]) hs
         else dedup_loop seen deduped_headings hs)"

definition dedup :: "heading list \<Rightarrow> heading list" where
  "dedup headings = dedup_loop {} [] headings"

subsection \<open>extract_outline\<close>

definition fitz_open :: "libs \<Rightarrow> source \<Rightarrow> exn + document" where
  "fitz_open L src =
     (case src of
        SourceBytes b \<Rightarrow> open_stream L b
      | SourcePath p \<Rightarrow> open_path L p)"

text \<open>
  The two title lines. \<^verbatim>\<open>doc.metadata.get\<close> is outside every \<^verbatim>\<open>except\<close>: on
  \<^verbatim>\<open>None\<close> it raises \<^verbatim>\<open>AttributeError\<close>.
\<close>

definition resolve_title :: "document \<Rightarrow> exn + string" where
  "resolve_title doc =
     (case doc_metadata doc of
        None \<Rightarrow> Inl AttributeError
      | Some entry \<Rightarrow>
          let title = (case entry of None \<Rightarrow> [] | Some t \<Rightarrow> if t = [] then [] else t);
              title' = py_strip title
          in Inr (if title' = [] then ''Untitled'' else title'))"

text \<open>
  The loop over \<^verbatim>\<open>enumerate(doc, start=1)\<close>. The pages are loaded one by one as the loop
  goes; loading is outside the three \<^verbatim>\<open>try\<close> blocks of the body, so its exception ends the
  loop and leaves the call.
\<close>

fun scan_pages ::
  "libs \<Rightarrow> options \<Rightarrow> document \<Rightarrow> (nat \<times> (exn + page)) list \<Rightarrow> acc \<Rightarrow> exn + acc" where
  "scan_pages L opts doc [] a = Inr a"
| "scan_pages L opts doc ((page_number, loaded) # rest) a =
     (case loaded of
        Inl e \<Rightarrow> Inl e
      | Inr pg \<Rightarrow> scan_pages L opts doc rest (scan_page L opts doc (page_number, pg) a))"

definition scan_document :: "libs \<Rightarrow> options \<Rightarrow> document \<Rightarrow> exn + acc" where
  "scan_document L opts doc =
     scan_pages L opts doc (enumerate1 (doc_pages doc)) (Acc [] {} [] [])"

text \<open>
  The call. An exception of \<^verbatim>\<open>fitz.open\<close>, of the title lines or of the page iteration
  leaves the function; the \<^verbatim>\<open>finally\<close> clause closes the document and changes no result.
\<close>

definition extract_outline ::
  "libs \<Rightarrow> source \<Rightarrow> options \<Rightarrow> exn + (string \<times> heading list \<times> metadata)" where
  "extract_outline L src opts =
     (case fitz_open L src of
        Inl e \<Rightarrow> Inl e
      | Inr doc \<Rightarrow>
          (case resolve_title doc of
             Inl e \<Rightarrow> Inl e
           | Inr title \<Rightarrow>
               (case scan_document L opts doc of
                  Inl e \<Rightarrow> Inl e
                | Inr a \<Rightarrow>
                    let deduped_headings = dedup (acc_headings a);
                        md = Metadata (sorted_list_of_set (acc_pages_with_images a))
                                      (acc_links a) (acc_image_previews a)
                    in Inr (title, deduped_headings, md))))"

subsection \<open>What one unit adds to the result\<close>

text \<open>
  The code of a line, a block, an image or a page run on empty accumulators: what that unit
  appends. A page has image references when \<^verbatim>\<open>page.get_images\<close> returns a non-empty list.
\<close>

definition line_headings :: "options \<Rightarrow> nat \<Rightarrow> line \<Rightarrow> heading list" where
  "line_headings opts page_number lin = scan_line opts page_number lin []"

definition block_headings :: "options \<Rightarrow> nat \<Rightarrow> block \<Rightarrow> heading list" where
  "block_headings opts page_number blk = scan_block opts page_number blk []"

definition page_headings :: "options \<Rightarrow> nat \<Rightarrow> page \<Rightarrow> heading list" where
  "page_headings opts page_number pg =
     acc_headings (scan_headings opts page_number pg (Acc [] {} [] []))"

definition page_links :: "nat \<Rightarrow> page \<Rightarrow> link_ref list" where
  "page_links page_number pg = acc_links (scan_links page_number pg (Acc [] {} [] []))"

definition image_previews_of ::
  "libs \<Rightarrow> options \<Rightarrow> document \<Rightarrow> nat \<Rightarrow> image_meta \<Rightarrow> image_preview list" where
  "image_previews_of L opts doc page_number img_meta =
     scan_image L opts doc page_number img_meta []"

definition page_previews ::
  "libs \<Rightarrow> options \<Rightarrow> document \<Rightarrow> nat \<Rightarrow> page \<Rightarrow> image_preview list" where
  "page_previews L opts doc page_number pg =
     acc_image_previews (scan_images L opts doc page_number pg (Acc [] {} [] []))"

text \<open>The pages of a document when every page loads, and else the first exception of loading.\<close>

fun load_pages :: "(exn + page) list \<Rightarrow> exn + page list" where
  "load_pages [] = Inr []"
| "load_pages (loaded # rest) =
     (case loaded of
        Inl e \<Rightarrow> Inl e
      | Inr pg \<Rightarrow> (case load_pages rest of Inl e \<Rightarrow> Inl e | Inr pgs \<Rightarrow> Inr (pg # pgs)))"

definition has_image_refs :: "page \<Rightarrow> bool" where
  "has_image_refs pg = (case get_images pg of Inl e \<Rightarrow> False | Inr images \<Rightarrow> images \<noteq> [])"

text \<open>The size of a span as a number: an absent size counts as 0, as \<^verbatim>\<open>span.get("size", 0)\<close> has it.\<close>

fun size_or_zero :: "size_val \<Rightarrow> real" where
  "size_or_zero SizeMissing = 0"
| "size_or_zero (SizeNum r) = r"
| "size_or_zero SizeBad = 0"

subsection \<open>An example document\<close>

text \<open>
  Three pages. On the first, the first image cannot be extracted, one line has a malformed
  size, one is blank, and two lines give the same key; on the second, all three page calls
  raise; the third repeats an image.
\<close>

definition ex_page1 :: page where
  "ex_page1 = Page
     (Inr [ImageMeta 2, ImageMeta 7])
     (Inr [Link (Some ''http://a''), Link None, Link (Some [])])
     (Inr (PageDict (Some
        [Block None,
         Block (Some
           [Line (Some [Span (Some ''Ch'') (SizeNum 20), Span (Some ''1'') (SizeNum 12)]),
            Line (Some [Span (Some ''x'') SizeBad]),
            Line None,
            Line (Some [Span (Some '' '') (SizeNum 30)]),
            Line (Some [Span (Some ''ch   1'') (SizeNum 18), Span None SizeMissing]),
            Line (Some [Span (Some ''S 1'') (SizeNum (1799 / 100))])])])))"

definition ex_page2 :: page where
  "ex_page2 = Page (Inl RuntimeError) (Inl RuntimeError) (Inl RuntimeError)"

definition ex_page3 :: page where
  "ex_page3 = Page
     (Inr [ImageMeta 7, ImageMeta 7])
     (Inr [Link (Some ''http://b'')])
     (Inr (PageDict (Some [Block (Some [Line (Some [Span (Some ''Ch 1'') (SizeNum 20)])])])))"

definition ex_extract_image :: "nat \<Rightarrow> exn + string option" where
  "ex_extract_image xref =
     (if xref = 7 then Inr (Some ''png'')
      else if xref = 2 then Inl RuntimeError
      else if xref = 3 then Inr None
      else Inr (Some ''bad''))"

definition ex_doc :: document where
  "ex_doc = Document (Some (Some '' My Doc  '')) [Inr ex_page1, Inr ex_page2, Inr ex_page3]
     ex_extract_image"

definition ex_libs :: libs where
  "ex_libs = Libs
     (\<lambda>b. if b = ''%PDF'' then Inr ex_doc else Inl FileDataError)
     (\<lambda>p. Inl OSError)
     (\<lambda>b m. if b = ''png'' then Inr ''QUJD'' else Inl ValueError)"

text \<open>The default options with a preview for every image.\<close>

definition all_images_options :: options where
  "all_images_options = Options 18 14 10 160 False"




section \<open>The heading classifier\<close>

text \<open>
  C1. With thresholds ordered \<open>min_h1 \<ge> min_h2 \<ge> min_h3\<close>, a font size \<open>s\<close> is classified
  H1 iff \<open>s \<ge> min_h1\<close>, H2 iff \<open>min_h2 \<le> s < min_h1\<close>, H3 iff \<open>min_h3 \<le> s < min_h2\<close>, and
  gives no heading iff \<open>s < min_h3\<close>; a size equal to a threshold falls into the higher tier.
\<close>

theorem classify_tiers:
  assumes "min_h2 opts \<le> min_h1 opts" and "min_h3 opts \<le> min_h2 opts"
  shows "(classify opts s = Some H1 \<longleftrightarrow> s \<ge> min_h1 opts)
       \<and> (classify opts s = Some H2 \<longleftrightarrow> min_h2 opts \<le> s \<and> s < min_h1 opts)
       \<and> (classify opts s = Some H3 \<longleftrightarrow> min_h3 opts \<le> s \<and> s < min_h2 opts)
       \<and> (classify opts s = None \<longleftrightarrow> s < min_h3 opts)
       \<and> classify opts (min_h1 opts) = Some H1
       \<and> (min_h2 opts < min_h1 opts \<longrightarrow> classify opts (min_h2 opts) = Some H2)
       \<and> (min_h3 opts < min_h2 opts \<longrightarrow> classify opts (min_h3 opts) = Some H3)"
  using assms by (auto simp: classify_def)

theorem classify_tiers_witness:
  "min_h2 default_options \<le> min_h1 default_options
   \<and> min_h3 default_options \<le> min_h2 default_options
   \<and> classify default_options 18 = Some H1
   \<and> classify default_options 14 = Some H2
   \<and> classify default_options 10 = Some H3
   \<and> classify default_options (999 / 100) = None"
proof -
  have a: "min_h2 default_options \<le> min_h1 default_options"
    by (simp add: default_options_def)
  have b: "min_h3 default_options \<le> min_h2 default_options"
    by (simp add: default_options_def)
  show ?thesis
    using a b classify_tiers [OF a b, of 18] classify_tiers [OF a b, of 14]
      classify_tiers [OF a b, of 10] classify_tiers [OF a b, of "999 / 100"]
    by (simp add: default_options_def)
qed

section \<open>Deduplication\<close>

lemma dedup_loop_acc:
  "dedup_loop seen acc hs = acc @ dedup_loop seen [] hs"
proof (induction hs arbitrary: seen acc)
  case Nil
  show ?case by simp
next
  case (Cons h hs)
  show ?case
    using Cons.IH [of "insert (heading_key h) seen" "acc @ [h]"]
      Cons.IH [of "insert (heading_key h) seen" "[h]"] Cons.IH [of seen acc]
    by (simp add: Let_def)
qed

lemma dedup_loop_Cons:
  "dedup_loop seen [] (h # hs) =
     (if heading_key h \<in> seen then dedup_loop seen [] hs
      else h # dedup_loop (insert (heading_key h) seen) [] hs)"
  using dedup_loop_acc [of "insert (heading_key h) seen" "[h]" hs]
  by (simp add: Let_def)

lemma dedup_loop_index:
  "dedup_loop seen [] hs =
     map ((!) hs)
       (filter (\<lambda>i. heading_key (hs ! i) \<notin> seen \<union> heading_key ` set (take i hs))
          [0 ..< length hs])"
proof (induction hs arbitrary: seen)
  case Nil
  show ?case by simp
next
  case (Cons h hs)
  have upt: "[0 ..< length (h # hs)] = 0 # map Suc [0 ..< length hs]"
    by (simp add: upt_conv_Cons map_Suc_upt del: upt_Suc)
  show ?case
    unfolding dedup_loop_Cons upt
    by (auto simp: Cons.IH filter_map comp_def simp del: upt_Suc
          intro!: arg_cong [where f = "map ((!) hs)"] filter_cong)
qed

lemma dedup_loop_subseq: "subseq (dedup_loop seen [] hs) hs"
  by (induction hs arbitrary: seen)
    (auto simp: dedup_loop_Cons simp del: dedup_loop.simps(2) intro: subseq_Cons')

lemma dedup_loop_keys:
  "heading_key ` set (dedup_loop seen [] hs) = heading_key ` set hs - seen"
  by (induction hs arbitrary: seen) (auto simp: dedup_loop_Cons simp del: dedup_loop.simps(2))

lemma dedup_loop_distinct: "distinct (map heading_key (dedup_loop seen [] hs))"
proof (induction hs arbitrary: seen)
  case Nil
  show ?case by simp
next
  case (Cons h hs)
  have "heading_key h \<notin> heading_key ` set (dedup_loop (insert (heading_key h) seen) [] hs)"
    by (simp add: dedup_loop_keys)
  then show ?case
    by (simp add: dedup_loop_Cons Cons.IH del: dedup_loop.simps(2))
qed

lemma dedup_loop_fixed:
  "distinct (map heading_key hs) \<Longrightarrow> heading_key ` set hs \<inter> seen = {}
   \<Longrightarrow> dedup_loop seen [] hs = hs"
  by (induction hs arbitrary: seen) (auto simp: dedup_loop_Cons simp del: dedup_loop.simps(2))

lemma dedup_idem: "dedup (dedup hs) = dedup hs"
  unfolding dedup_def by (rule dedup_loop_fixed) (simp_all add: dedup_loop_distinct)

text \<open>
  C2. The deduplication keeps, for each key (level, lowercase text, page), exactly the
  first heading with that key, in the order of the input: the result consists of the
  headings at the positions whose key does not occur earlier. It is idempotent, its result
  is a subsequence of the input, no key occurs twice in it and no key is lost.
\<close>

theorem dedup_first_occurrences:
  "dedup hs = map ((!) hs)
       (filter (\<lambda>i. heading_key (hs ! i) \<notin> heading_key ` set (take i hs)) [0 ..< length hs])
   \<and> dedup (dedup hs) = dedup hs
   \<and> subseq (dedup hs) hs
   \<and> distinct (map heading_key (dedup hs))
   \<and> heading_key ` set (dedup hs) = heading_key ` set hs"
proof -
  have "dedup hs = map ((!) hs)
       (filter (\<lambda>i. heading_key (hs ! i) \<notin> heading_key ` set (take i hs)) [0 ..< length hs])"
    unfolding dedup_def using dedup_loop_index [of "{}" hs] by simp
  moreover have "dedup (dedup hs) = dedup hs"
    by (rule dedup_idem)
  moreover have "subseq (dedup hs) hs"
    unfolding dedup_def by (rule dedup_loop_subseq)
  moreover have "distinct (map heading_key (dedup hs))"
    unfolding dedup_def by (rule dedup_loop_distinct)
  moreover have "heading_key ` set (dedup hs) = heading_key ` set hs"
    unfolding dedup_def by (simp add: dedup_loop_keys)
  ultimately show ?thesis by blast
qed

theorem dedup_first_occurrences_witness:
  "dedup [Heading H1 ''Ab'' 1 20, Heading H1 ''AB'' 1 19, Heading H2 ''Ab'' 1 15,
          Heading H1 ''Ab'' 2 20, Heading H1 ''ab'' 1 20]
     = [Heading H1 ''Ab'' 1 20, Heading H2 ''Ab'' 1 15, Heading H1 ''Ab'' 2 20]
   \<and> dedup (dedup [Heading H1 ''Ab'' 1 20, Heading H1 ''AB'' 1 19, Heading H2 ''Ab'' 1 15,
          Heading H1 ''Ab'' 2 20, Heading H1 ''ab'' 1 20])
     = [Heading H1 ''Ab'' 1 20, Heading H2 ''Ab'' 1 15, Heading H1 ''Ab'' 2 20]"
proof -
  have A: "lower_char CHR ''A'' = CHR ''a''" and B: "lower_char CHR ''B'' = CHR ''b''"
    and a: "lower_char CHR ''a'' = CHR ''a''" and b: "lower_char CHR ''b'' = CHR ''b''"
    by (simp_all add: lower_char_def upper_chars_def lower_chars_def)
  have e: "dedup [Heading H1 ''Ab'' 1 20, Heading H1 ''AB'' 1 19, Heading H2 ''Ab'' 1 15,
          Heading H1 ''Ab'' 2 20, Heading H1 ''ab'' 1 20]
     = [Heading H1 ''Ab'' 1 20, Heading H2 ''Ab'' 1 15, Heading H1 ''Ab'' 2 20]"
    by (simp add: dedup_def heading_key_def py_lower_def A B a b)
  show ?thesis
    using dedup_first_occurrences [THEN conjunct2, THEN conjunct1,
        of "[Heading H1 ''Ab'' 1 20, Heading H1 ''AB'' 1 19, Heading H2 ''Ab'' 1 15,
          Heading H1 ''Ab'' 2 20, Heading H1 ''ab'' 1 20]"]
    by (simp only: e simp_thms)
qed


section \<open>What each iteration computes\<close>

text \<open>Each loop appends, unit after unit, what the unit gives on empty accumulators.\<close>

lemma fold_appends:
  assumes "\<And>x a. f x a = a @ f x []"
  shows "fold f xs a = a @ concat (map (\<lambda>x. f x []) xs)"
proof (induction xs arbitrary: a)
  case Nil
  show ?case by simp
next
  case (Cons x xs)
  have "fold f (x # xs) a = fold f xs (f x a)" by simp
  also have "\<dots> = f x a @ concat (map (\<lambda>x. f x []) xs)" by (rule Cons.IH)
  also have "f x a = a @ f x []" by (rule assms)
  finally show ?case by simp
qed

lemma scan_line_append:
  "scan_line opts n lin hs = hs @ line_headings opts n lin"
  by (simp add: scan_line_def line_headings_def Let_def split: option.splits)

lemma fold_scan_line:
  "fold (scan_line opts n) lns hs = hs @ concat (map (line_headings opts n) lns)"
proof -
  have "\<And>x a. scan_line opts n x a = a @ scan_line opts n x []"
    by (simp add: scan_line_append)
  from fold_appends [of "scan_line opts n", OF this] show ?thesis
    unfolding line_headings_def .
qed

lemma block_headings_eq:
  "block_headings opts n blk =
     (case block_lines blk of None \<Rightarrow> [] | Some lns \<Rightarrow> concat (map (line_headings opts n) lns))"
  by (simp add: block_headings_def scan_block_def fold_scan_line split: option.splits)

lemma scan_block_append:
  "scan_block opts n blk hs = hs @ block_headings opts n blk"
  by (simp add: block_headings_eq scan_block_def fold_scan_line split: option.splits)

lemma fold_scan_block:
  "fold (scan_block opts n) blks hs = hs @ concat (map (block_headings opts n) blks)"
proof -
  have "\<And>x a. scan_block opts n x a = a @ scan_block opts n x []"
    by (simp add: scan_block_append)
  from fold_appends [of "scan_block opts n", OF this] show ?thesis
    unfolding block_headings_def .
qed

lemma page_headings_eq:
  "page_headings opts n pg =
     (case get_text pg of
        Inl e \<Rightarrow> []
      | Inr page_dict \<Rightarrow>
          (case pd_blocks page_dict of
             None \<Rightarrow> []
           | Some blks \<Rightarrow> concat (map (block_headings opts n) blks)))"
  by (simp add: page_headings_def scan_headings_def fold_scan_block
      split: sum.splits option.splits)

lemma scan_headings_eq:
  "scan_headings opts n pg a =
     Acc (acc_headings a @ page_headings opts n pg) (acc_pages_with_images a)
         (acc_links a) (acc_image_previews a)"
  by (simp add: page_headings_eq scan_headings_def fold_scan_block
      split: sum.splits option.splits)

lemma scan_link_append:
  "scan_link n lk lrs = lrs @ scan_link n lk []"
  by (simp add: scan_link_def split: option.splits)

lemma page_links_eq:
  "page_links n pg =
     (case get_links pg of
        Inl e \<Rightarrow> []
      | Inr lks \<Rightarrow> concat (map (\<lambda>lk. scan_link n lk []) lks))"
  using fold_appends [of "scan_link n", OF scan_link_append]
  by (simp add: page_links_def scan_links_def split: sum.splits)

lemma scan_links_eq:
  "scan_links n pg a =
     Acc (acc_headings a) (acc_pages_with_images a)
         (acc_links a @ page_links n pg) (acc_image_previews a)"
  using fold_appends [of "scan_link n", OF scan_link_append]
  by (simp add: page_links_eq scan_links_def split: sum.splits)

lemma scan_image_append:
  "scan_image L opts doc n im ps = ps @ image_previews_of L opts doc n im"
  by (simp add: scan_image_def image_previews_of_def split: sum.splits option.splits)

lemma fold_scan_image:
  "fold (scan_image L opts doc n) ims ps =
     ps @ concat (map (image_previews_of L opts doc n) ims)"
proof -
  have "\<And>x a. scan_image L opts doc n x a = a @ scan_image L opts doc n x []"
    by (simp add: scan_image_append)
  from fold_appends [of "scan_image L opts doc n", OF this] show ?thesis
    unfolding image_previews_of_def .
qed

lemma page_previews_eq:
  "page_previews L opts doc n pg =
     (case get_images pg of
        Inl e \<Rightarrow> []
      | Inr images \<Rightarrow>
          concat (map (image_previews_of L opts doc n)
            (if detect_first_image_only opts then take 1 images else images)))"
  by (simp add: page_previews_def scan_images_def fold_scan_image Let_def
      split: sum.splits)

lemma scan_images_eq:
  "scan_images L opts doc n pg a =
     Acc (acc_headings a)
         (if has_image_refs pg then insert n (acc_pages_with_images a)
          else acc_pages_with_images a)
         (acc_links a) (acc_image_previews a @ page_previews L opts doc n pg)"
  by (simp add: page_previews_eq scan_images_def has_image_refs_def fold_scan_image Let_def
      split: sum.splits)

lemma scan_page_eq:
  "scan_page L opts doc np a =
     Acc (acc_headings a @ page_headings opts (fst np) (snd np))
         (if has_image_refs (snd np) then insert (fst np) (acc_pages_with_images a)
          else acc_pages_with_images a)
         (acc_links a @ page_links (fst np) (snd np))
         (acc_image_previews a @ page_previews L opts doc (fst np) (snd np))"
  by (simp add: scan_page_def scan_headings_eq scan_links_eq scan_images_eq)

lemma fold_scan_page:
  "fold (scan_page L opts doc) nps a =
     Acc (acc_headings a @ concat (map (\<lambda>np. page_headings opts (fst np) (snd np)) nps))
         (acc_pages_with_images a \<union> {n. \<exists>pg. (n, pg) \<in> set nps \<and> has_image_refs pg})
         (acc_links a @ concat (map (\<lambda>np. page_links (fst np) (snd np)) nps))
         (acc_image_previews a
            @ concat (map (\<lambda>np. page_previews L opts doc (fst np) (snd np)) nps))"
proof (induction nps arbitrary: a)
  case Nil
  show ?case by simp
next
  case (Cons np nps)
  have "fold (scan_page L opts doc) (np # nps) a
      = fold (scan_page L opts doc) nps (scan_page L opts doc np a)"
    by simp
  also note Cons.IH [of "scan_page L opts doc np a"]
  finally have step: "fold (scan_page L opts doc) (np # nps) a =
     Acc (acc_headings (scan_page L opts doc np a)
            @ concat (map (\<lambda>np. page_headings opts (fst np) (snd np)) nps))
         (acc_pages_with_images (scan_page L opts doc np a)
            \<union> {n. \<exists>pg. (n, pg) \<in> set nps \<and> has_image_refs pg})
         (acc_links (scan_page L opts doc np a)
            @ concat (map (\<lambda>np. page_links (fst np) (snd np)) nps))
         (acc_image_previews (scan_page L opts doc np a)
            @ concat (map (\<lambda>np. page_previews L opts doc (fst np) (snd np)) nps))" .
  have sets: "(if has_image_refs (snd np) then insert (fst np) (acc_pages_with_images a)
               else acc_pages_with_images a)
              \<union> {n. \<exists>pg. (n, pg) \<in> set nps \<and> has_image_refs pg}
            = acc_pages_with_images a
              \<union> {n. \<exists>pg. (n, pg) \<in> set (np # nps) \<and> has_image_refs pg}"
    by (cases np) auto
  show ?case
    unfolding step by (simp only: scan_page_eq [of L opts doc np a] acc.sel sets) simp
qed

lemma set_enumerate1:
  "(n, x) \<in> set (enumerate1 xs) \<longleftrightarrow> 1 \<le> n \<and> n \<le> length xs \<and> x = xs ! (n - 1)"
proof -
  have "(n, x) \<in> set (enumerate1 xs)
      \<longleftrightarrow> (\<exists>i < length xs. n = [1 ..< Suc (length xs)] ! i \<and> x = xs ! i)"
    unfolding enumerate1_def by (auto simp: set_zip)
  also have "\<dots> \<longleftrightarrow> (\<exists>i < length xs. n = Suc i \<and> x = xs ! i)"
    by (metis One_nat_def Suc_less_eq add.commute nth_upt plus_1_eq_Suc)
  also have "\<dots> \<longleftrightarrow> 1 \<le> n \<and> n \<le> length xs \<and> x = xs ! (n - 1)"
    by (cases n) auto
  finally show ?thesis .
qed

lemma load_pages_length: "load_pages ps = Inr pgs \<Longrightarrow> length pgs = length ps"
  by (induction ps arbitrary: pgs) (auto split: sum.splits)

lemma scan_pages_eq:
  "scan_pages L opts doc (zip [k ..< k + length ps] ps) a =
     (case load_pages ps of
        Inl e \<Rightarrow> Inl e
      | Inr pgs \<Rightarrow> Inr (fold (scan_page L opts doc) (zip [k ..< k + length pgs] pgs) a))"
proof (induction ps arbitrary: k a)
  case Nil
  show ?case by simp
next
  case (Cons p ps)
  have upt: "[k ..< k + length (p # ps)] = k # [Suc k ..< Suc k + length ps]"
    by (simp add: upt_conv_Cons del: upt_Suc)
  show ?case
  proof (cases p)
    case (Inl e)
    then show ?thesis unfolding upt by simp
  next
    case (Inr pg)
    show ?thesis
    proof (cases "load_pages ps")
      case (Inl e)
      with Inr Cons.IH [of "Suc k" "scan_page L opts doc (k, pg) a"] show ?thesis
        unfolding upt by simp
    next
      case inr: (Inr pgs)
      have "[k ..< k + length (pg # pgs)] = k # [Suc k ..< Suc k + length pgs]"
        by (simp add: upt_conv_Cons del: upt_Suc)
      with Inr inr Cons.IH [of "Suc k" "scan_page L opts doc (k, pg) a"] show ?thesis
        unfolding upt by simp
    qed
  qed
qed

lemma scan_document_eq:
  "scan_document L opts doc =
     (case load_pages (doc_pages doc) of
        Inl e \<Rightarrow> Inl e
      | Inr pgs \<Rightarrow>
          Inr (Acc (concat (map (\<lambda>np. page_headings opts (fst np) (snd np)) (enumerate1 pgs)))
                   {n. 1 \<le> n \<and> n \<le> length pgs \<and> has_image_refs (pgs ! (n - 1))}
                   (concat (map (\<lambda>np. page_links (fst np) (snd np)) (enumerate1 pgs)))
                   (concat (map (\<lambda>np. page_previews L opts doc (fst np) (snd np))
                      (enumerate1 pgs)))))"
proof -
  have "scan_document L opts doc =
     (case load_pages (doc_pages doc) of
        Inl e \<Rightarrow> Inl e
      | Inr pgs \<Rightarrow> Inr (fold (scan_page L opts doc) (enumerate1 pgs) (Acc [] {} [] [])))"
    using scan_pages_eq [of L opts doc 1 "doc_pages doc" "Acc [] {} [] []"]
    by (simp add: scan_document_def enumerate1_def del: upt_Suc split: sum.splits)
  then show ?thesis
    by (simp add: fold_scan_page set_enumerate1 split: sum.splits)
qed

lemma resolve_title_eq:
  "resolve_title doc =
     (case doc_metadata doc of
        None \<Rightarrow> Inl AttributeError
      | Some entry \<Rightarrow>
          Inr (case entry of
                 None \<Rightarrow> ''Untitled''
               | Some t \<Rightarrow> if py_strip t = [] then ''Untitled'' else py_strip t))"
  by (simp add: resolve_title_def py_strip_def Let_def split: option.splits)

lemma extract_outline_eq:
  "extract_outline L src opts =
     (case fitz_open L src of
        Inl e \<Rightarrow> Inl e
      | Inr doc \<Rightarrow>
          (case resolve_title doc of
             Inl e \<Rightarrow> Inl e
           | Inr title \<Rightarrow>
               (case load_pages (doc_pages doc) of
                  Inl e \<Rightarrow> Inl e
                | Inr pgs \<Rightarrow>
                    Inr (title,
                         dedup (concat (map (\<lambda>np. page_headings opts (fst np) (snd np))
                                  (enumerate1 pgs))),
                         Metadata
                           (sorted_list_of_set
                              {n. 1 \<le> n \<and> n \<le> length pgs \<and> has_image_refs (pgs ! (n - 1))})
                           (concat (map (\<lambda>np. page_links (fst np) (snd np)) (enumerate1 pgs)))
                           (concat (map (\<lambda>np. page_previews L opts doc (fst np) (snd np))
                              (enumerate1 pgs)))))))"
  by (simp add: extract_outline_def scan_document_eq Let_def split: sum.splits)

section \<open>Evaluation on the example\<close>

lemmas ex_defs =
  ex_page1_def ex_page2_def ex_page3_def ex_extract_image_def ex_doc_def ex_libs_def

lemma py_split_Nil: "py_split [] = []"
  by (simp add: py_split.simps)

lemma py_split_space: "is_space c \<Longrightarrow> py_split (c # cs) = py_split cs"
  by (subst py_split.simps, subst (2) py_split.simps) simp

lemma py_split_word:
  "\<not> is_space c \<Longrightarrow>
     py_split (c # cs) =
       (c # takeWhile (\<lambda>x. \<not> is_space x) cs) # py_split (dropWhile (\<lambda>x. \<not> is_space x) cs)"
  by (subst py_split.simps) simp

lemmas eval_simps = py_split_Nil py_split_space py_split_word is_space_def
  line_headings_def scan_line_def line_text_def span_text_or_empty_def py_strip_def
  max_font_def max_try_def
  classify_def default_options_def normalize_text_def py_round2_def round_half_even_def

lemmas scan_defs = scan_document_def enumerate1_def scan_page_def scan_images_def
  scan_image_def preview_try_def make_image_preview_def scan_links_def scan_link_def
  scan_headings_def scan_block_def

lemma ex_open: "fitz_open ex_libs (SourceBytes ''%PDF'') = Inr ex_doc"
  by (simp add: fitz_open_def ex_libs_def)

lemma lower_ex:
  "py_lower ''Ch 1'' = ''ch 1''" "py_lower ''ch 1'' = ''ch 1''" "py_lower ''S 1'' = ''s 1''"
  by (simp_all add: py_lower_def lower_char_def upper_chars_def lower_chars_def)

lemma ex_meta: "doc_metadata ex_doc = Some (Some '' My Doc  '')"
  by (simp add: ex_doc_def)

lemma ex_load: "load_pages (doc_pages ex_doc) = Inr [ex_page1, ex_page2, ex_page3]"
  by (simp add: ex_doc_def)

lemma ex_scan:
  "scan_document ex_libs default_options ex_doc =
     Inr (Acc [Heading H1 ''Ch 1'' 1 20, Heading H1 ''ch 1'' 1 18,
               Heading H2 ''S 1'' 1 (1799 / 100), Heading H1 ''Ch 1'' 3 20]
              {1, 3}
              [LinkRef 1 ''http://a'', LinkRef 3 ''http://b'']
              [ImagePreview 3 ''data:image/png;base64,QUJD''])"
  by (simp add: scan_defs ex_defs eval_simps upt_rec [of 1] upt_rec [of 2] upt_rec [of 3]
      insert_commute Let_def numeral_3_eq_3)

lemma ex_extract:
  "extract_outline ex_libs (SourceBytes ''%PDF'') default_options =
     Inr (''My Doc'',
          [Heading H1 ''Ch 1'' 1 20, Heading H2 ''S 1'' 1 (1799 / 100), Heading H1 ''Ch 1'' 3 20],
          Metadata [1, 3] [LinkRef 1 ''http://a'', LinkRef 3 ''http://b'']
            [ImagePreview 3 ''data:image/png;base64,QUJD''])"
proof -
  have title: "resolve_title ex_doc = Inr ''My Doc''"
    by (simp add: resolve_title_eq ex_meta py_strip_def is_space_def)
  show ?thesis
    by (simp add: extract_outline_def ex_open ex_scan title Let_def dedup_def heading_key_def
        lower_ex sorted_list_of_set.sorted_key_list_of_set_insert_remove)
qed

section \<open>Pages with images\<close>

text \<open>
  C3. For every document that opens, has its metadata and loads all its pages, the call
  returns, and the \<open>pages_with_images\<close> of the returned metadata is strictly ascending, has
  no repeated value, and holds exactly the indices of the pages whose \<^verbatim>\<open>get_images\<close>
  returned at least one image reference. The libraries (so the success of every preview)
  and the options (so \<open>detect_first_image_only\<close>) are arbitrary.
\<close>

theorem pages_with_images_sorted:
  assumes "fitz_open L src = Inr doc" and "doc_metadata doc = Some entry"
    and "load_pages (doc_pages doc) = Inr pgs"
  shows "case extract_outline L src opts of
           Inl e \<Rightarrow> False
         | Inr (title, hs, md) \<Rightarrow>
             sorted_wrt (<) (pages_with_images md)
             \<and> distinct (pages_with_images md)
             \<and> set (pages_with_images md)
                 = {n. 1 \<le> n \<and> n \<le> length pgs \<and> has_image_refs (pgs ! (n - 1))}"
proof -
  let ?S = "{n. 1 \<le> n \<and> n \<le> length pgs \<and> has_image_refs (pgs ! (n - 1))}"
  have fin: "finite ?S"
    by (rule finite_subset [of _ "{.. length pgs}"]) auto
  show ?thesis
    using fin by (simp add: extract_outline_eq resolve_title_eq assms)
qed

theorem pages_with_images_sorted_witness:
  "fitz_open ex_libs (SourceBytes ''%PDF'') = Inr ex_doc
   \<and> doc_metadata ex_doc = Some (Some '' My Doc  '')
   \<and> load_pages (doc_pages ex_doc) = Inr [ex_page1, ex_page2, ex_page3]
   \<and> sorted_wrt (<) [1, 3 :: nat]
   \<and> set [1, 3 :: nat]
       = {n. 1 \<le> n \<and> n \<le> length [ex_page1, ex_page2, ex_page3]
             \<and> has_image_refs ([ex_page1, ex_page2, ex_page3] ! (n - 1))}"
  using pages_with_images_sorted [OF ex_open ex_meta ex_load, of default_options]
  by (simp add: ex_extract ex_open ex_meta ex_load)

section \<open>The title\<close>

text \<open>
  The returned title is not always the metadata title itself: the example document's title
  has blanks at both ends, and the call returns it without them.
\<close>

theorem title_unstripped_counterexample:
  "doc_metadata ex_doc = Some (Some '' My Doc  '')
   \<and> py_strip '' My Doc  '' \<noteq> []
   \<and> map_sum id fst (extract_outline ex_libs (SourceBytes ''%PDF'') default_options)
       = Inr ''My Doc''"
  by (simp add: ex_extract) (simp add: ex_doc_def py_strip_def is_space_def)

text \<open>
  C7, amended. For every document that opens, has its metadata and loads all its pages, the
  call returns, and the returned title is the metadata title with the whitespace at both
  ends removed when the title is present and that is not empty, and \<open>''Untitled''\<close>
  otherwise; the returned title is never empty.
\<close>

theorem title_resolution:
  assumes "fitz_open L src = Inr doc" and "doc_metadata doc = Some entry"
    and "load_pages (doc_pages doc) = Inr pgs"
  shows "case extract_outline L src opts of
           Inl e \<Rightarrow> False
         | Inr (title, hs, md) \<Rightarrow>
             title = (case entry of
                        None \<Rightarrow> ''Untitled''
                      | Some t \<Rightarrow> if py_strip t = [] then ''Untitled'' else py_strip t)
             \<and> title \<noteq> []"
proof -
  let ?title = "case entry of
                  None \<Rightarrow> ''Untitled''
                | Some t \<Rightarrow> if py_strip t = [] then ''Untitled'' else py_strip t"
  have resolved: "resolve_title doc = Inr ?title"
    by (simp add: resolve_title_eq assms(2))
  have nonempty: "?title \<noteq> []"
    by (simp split: option.splits)
  obtain a where scanned: "scan_document L opts doc = Inr a"
    by (simp add: scan_document_eq assms(3))
  have "extract_outline L src opts
      = Inr (?title,
             dedup (acc_headings a),
             Metadata (sorted_list_of_set (acc_pages_with_images a))
               (acc_links a) (acc_image_previews a))"
    by (simp add: extract_outline_def assms(1) resolved scanned Let_def)
  then show ?thesis
    using nonempty by simp
qed

theorem title_resolution_witness:
  "fitz_open ex_libs (SourceBytes ''%PDF'') = Inr ex_doc
   \<and> doc_metadata ex_doc = Some (Some '' My Doc  '')
   \<and> load_pages (doc_pages ex_doc) = Inr [ex_page1, ex_page2, ex_page3]
   \<and> py_strip '' My Doc  '' = ''My Doc''
   \<and> fst (projr (extract_outline ex_libs (SourceBytes ''%PDF'') default_options)) = ''My Doc''"
  using title_resolution [OF ex_open ex_meta ex_load, of default_options]
  by (simp add: ex_extract ex_open ex_meta ex_load) (simp add: py_strip_def is_space_def)

section \<open>Image previews\<close>

lemma image_previews_of_eq:
  "image_previews_of L opts doc n im =
     (case preview_try L opts doc im of
        Inl e \<Rightarrow> []
      | Inr None \<Rightarrow> []
      | Inr (Some preview) \<Rightarrow> [ImagePreview n preview])"
  by (simp add: image_previews_of_def scan_image_def split: sum.splits option.splits)

lemma image_previews_of_page:
  "p \<in> set (image_previews_of L opts doc n im) \<Longrightarrow> ip_page p = n"
  by (auto simp: image_previews_of_eq split: sum.splits option.splits)

lemma image_previews_of_length: "length (image_previews_of L opts doc n im) \<le> 1"
  by (simp add: image_previews_of_eq split: sum.splits option.splits)

lemma page_previews_page:
  "p \<in> set (page_previews L opts doc n pg) \<Longrightarrow> ip_page p = n"
  by (auto simp: page_previews_eq dest: image_previews_of_page split: sum.splits if_splits)

lemma page_previews_first_only:
  assumes "detect_first_image_only opts"
  shows "length (page_previews L opts doc n pg) \<le> 1"
proof (cases "get_images pg")
  case (Inl e)
  then show ?thesis by (simp add: page_previews_eq)
next
  case (Inr images)
  then show ?thesis
    using assms image_previews_of_length [of L opts doc n "hd images"]
    by (cases images) (simp_all add: page_previews_eq)
qed

lemma concat_at_most_one:
  assumes "distinct (map fst nps)"
    and "\<And>np. np \<in> set nps \<Longrightarrow> fst np \<noteq> n \<Longrightarrow> f np = []"
    and "\<And>np. np \<in> set nps \<Longrightarrow> length (f np) \<le> 1"
  shows "length (concat (map f nps)) \<le> 1"
  using assms
proof (induction nps)
  case Nil
  show ?case by simp
next
  case (Cons np nps)
  show ?case
  proof (cases "fst np = n")
    case True
    have "f q = []" if "q \<in> set nps" for q
    proof -
      from Cons.prems(1) that True have "fst q \<noteq> n" by (auto simp: image_iff)
      with Cons.prems(2) that show ?thesis by simp
    qed
    then have e: "concat (map f nps) = []" by simp
    show ?thesis
      using Cons.prems(3) [of np] by (simp add: e)
  next
    case False
    with Cons.prems(2) [of np] have "f np = []" by simp
    moreover have "length (concat (map f nps)) \<le> 1"
      using Cons.prems by (intro Cons.IH) auto
    ultimately show ?thesis by simp
  qed
qed

lemma distinct_enumerate1: "distinct (map fst (enumerate1 xs))"
  by (simp add: enumerate1_def)

lemma previews_per_page:
  assumes "detect_first_image_only opts" and that: "distinct (map fst nps0)"
  shows "length (filter (\<lambda>p. ip_page p = n)
           (concat (map (\<lambda>np. page_previews L opts doc (fst np) (snd np)) nps0))) \<le> 1"
proof -
  let ?f = "\<lambda>np. filter (\<lambda>p. ip_page p = n) (page_previews L opts doc (fst np) (snd np))"
  have "length (concat (map ?f nps0)) \<le> 1"
  proof (rule concat_at_most_one [OF that])
    fix np :: "nat \<times> page" assume "fst np \<noteq> n"
    then show "?f np = []"
      by (auto simp: filter_empty_conv dest: page_previews_page)
  next
    fix np :: "nat \<times> page"
    have "length (?f np) \<le> length (page_previews L opts doc (fst np) (snd np))"
      by (rule length_filter_le)
    also have "\<dots> \<le> 1" by (rule page_previews_first_only [OF assms(1)])
    finally show "length (?f np) \<le> 1" .
  qed
  then show ?thesis
    by (simp add: filter_concat comp_def)
qed

lemma ex_previews_all:
  "map_sum id acc_image_previews (scan_document ex_libs all_images_options ex_doc) =
     Inr [ImagePreview 1 ''data:image/png;base64,QUJD'',
          ImagePreview 3 ''data:image/png;base64,QUJD'',
          ImagePreview 3 ''data:image/png;base64,QUJD'']"
  by (simp add: scan_document_eq ex_load page_previews_eq image_previews_of_eq preview_try_def
      make_image_preview_def enumerate1_def ex_defs all_images_options_def
      upt_rec [of 1] upt_rec [of 2] upt_rec [of 3] numeral_3_eq_3)

text \<open>
  C8. For every document that opens, has its metadata and loads all its pages, the call
  returns, and the previews of the result are those of the pages, in page order. When
  \<open>detect_first_image_only\<close> is true (as in the default options) only the first image
  reference of a page is processed and the result holds at most one preview for each page
  number; when it is false every image reference of the page is processed, each one
  giving its own preview or nothing, whatever happens to the others.
\<close>

theorem preview_modes:
  assumes "fitz_open L src = Inr doc" and "doc_metadata doc = Some entry"
    and "load_pages (doc_pages doc) = Inr pgs"
  shows "(case extract_outline L src opts of
            Inl e \<Rightarrow> False
          | Inr (title, hs, md) \<Rightarrow>
              image_previews md
                = concat (map (\<lambda>np. page_previews L opts doc (fst np) (snd np))
                    (enumerate1 pgs))
              \<and> (detect_first_image_only opts \<longrightarrow>
                   (\<forall>n. length (filter (\<lambda>p. ip_page p = n) (image_previews md)) \<le> 1)))
       \<and> page_previews L opts doc n pg
           = (case get_images pg of
                Inl e \<Rightarrow> []
              | Inr images \<Rightarrow>
                  concat (map (image_previews_of L opts doc n)
                    (if detect_first_image_only opts then take 1 images else images)))
       \<and> image_previews_of L opts doc n im
           = (case preview_try L opts doc im of
                Inl e \<Rightarrow> []
              | Inr None \<Rightarrow> []
              | Inr (Some preview) \<Rightarrow> [ImagePreview n preview])
       \<and> detect_first_image_only default_options"
proof -
  have "length (filter (\<lambda>p. ip_page p = k)
           (concat (map (\<lambda>np. page_previews L opts doc (fst np) (snd np))
              (enumerate1 pgs)))) \<le> 1"
    if "detect_first_image_only opts" for k
    using that distinct_enumerate1 by (rule previews_per_page)
  then have "case extract_outline L src opts of
            Inl e \<Rightarrow> False
          | Inr (title, hs, md) \<Rightarrow>
              image_previews md
                = concat (map (\<lambda>np. page_previews L opts doc (fst np) (snd np))
                    (enumerate1 pgs))
              \<and> (detect_first_image_only opts \<longrightarrow>
                   (\<forall>n. length (filter (\<lambda>p. ip_page p = n) (image_previews md)) \<le> 1))"
    by (simp add: extract_outline_eq resolve_title_eq assms)
  moreover have "detect_first_image_only default_options"
    by (simp add: default_options_def)
  ultimately show ?thesis
    using page_previews_eq [of L opts doc n pg] image_previews_of_eq [of L opts doc n im]
    by blast
qed

theorem preview_modes_witness:
  "fitz_open ex_libs (SourceBytes ''%PDF'') = Inr ex_doc
   \<and> doc_metadata ex_doc = Some (Some '' My Doc  '')
   \<and> load_pages (doc_pages ex_doc) = Inr [ex_page1, ex_page2, ex_page3]
   \<and> detect_first_image_only default_options
   \<and> (\<forall>n. length (filter (\<lambda>p. ip_page p = n)
           [ImagePreview 3 ''data:image/png;base64,QUJD'']) \<le> 1)
   \<and> page_previews ex_libs default_options ex_doc 3 ex_page3
       = [ImagePreview 3 ''data:image/png;base64,QUJD'']
   \<and> page_previews ex_libs all_images_options ex_doc 3 ex_page3
       = [ImagePreview 3 ''data:image/png;base64,QUJD'',
          ImagePreview 3 ''data:image/png;base64,QUJD'']"
proof -
  note T1 = preview_modes [OF ex_open ex_meta ex_load, of default_options 3 ex_page3
      "ImageMeta 7"]
  note T2 = preview_modes [OF ex_open ex_meta ex_load, of all_images_options 3 ex_page3
      "ImageMeta 7"]
  have d: "detect_first_image_only default_options"
    by (simp add: default_options_def)
  have a: "\<not> detect_first_image_only all_images_options"
    by (simp add: all_images_options_def)
  have g: "get_images ex_page3 = Inr [ImageMeta 7, ImageMeta 7]"
    by (simp add: ex_page3_def)
  have p: "preview_try ex_libs opts ex_doc (ImageMeta 7)
      = Inr (Some ''data:image/png;base64,QUJD'')" for opts
    by (simp add: preview_try_def make_image_preview_def ex_defs)
  have c1: "\<forall>n. length (filter (\<lambda>p. ip_page p = n)
           [ImagePreview 3 ''data:image/png;base64,QUJD'']) \<le> 1"
    using T1 [THEN conjunct1, unfolded ex_extract sum.case prod.case, THEN conjunct2,
        THEN mp, OF d]
    by simp
  have i1: "image_previews_of ex_libs default_options ex_doc 3 (ImageMeta 7)
      = [ImagePreview 3 ''data:image/png;base64,QUJD'']"
    using T1 [THEN conjunct2, THEN conjunct2, THEN conjunct1] by (simp add: p)
  have i2: "image_previews_of ex_libs all_images_options ex_doc 3 (ImageMeta 7)
      = [ImagePreview 3 ''data:image/png;base64,QUJD'']"
    using T2 [THEN conjunct2, THEN conjunct2, THEN conjunct1] by (simp add: p)
  have p1: "page_previews ex_libs default_options ex_doc 3 ex_page3
       = [ImagePreview 3 ''data:image/png;base64,QUJD'']"
    using T1 [THEN conjunct2, THEN conjunct1] by (simp add: g d i1)
  have p2: "page_previews ex_libs all_images_options ex_doc 3 ex_page3
       = [ImagePreview 3 ''data:image/png;base64,QUJD'',
          ImagePreview 3 ''data:image/png;base64,QUJD'']"
    using T2 [THEN conjunct2, THEN conjunct1] by (simp add: g a i2)
  from ex_open ex_meta ex_load d c1 p1 p2 show ?thesis by blast
qed

section \<open>The dominant font size\<close>

lemma float_sizes_usable:
  "\<forall>sp \<in> set sps. span_size sp \<noteq> SizeBad
     \<Longrightarrow> float_sizes sps = Inr (map (\<lambda>sp. size_or_zero (span_size sp)) sps)"
proof (induction sps)
  case Nil
  show ?case by simp
next
  case (Cons sp sps)
  then show ?case by (cases "span_size sp") simp_all
qed

lemma float_sizes_bad:
  "\<exists>sp \<in> set sps. span_size sp = SizeBad \<Longrightarrow> float_sizes sps = Inl ValueError"
proof (induction sps)
  case Nil
  then show ?case by simp
next
  case (Cons sp sps)
  show ?case
  proof (cases "span_size sp")
    case SizeBad
    then show ?thesis by simp
  next
    case SizeMissing
    with Cons show ?thesis by auto
  next
    case (SizeNum r)
    with Cons show ?thesis by auto
  qed
qed

lemma fold_max_Max: "fold max rs (r :: real) = Max (set (r # rs))"
proof (induction rs arbitrary: r)
  case Nil
  show ?case by simp
next
  case (Cons x rs)
  have "fold max (x # rs) r = Max (set (max x r # rs))"
    by (simp add: Cons.IH)
  also have "\<dots> = Max (set (r # x # rs))"
    by (cases rs) (simp_all add: max.commute max.assoc max.left_commute)
  finally show ?case .
qed

lemma max_font_usable:
  assumes "sps \<noteq> []" and "\<forall>sp \<in> set sps. span_size sp \<noteq> SizeBad"
  shows "max_font sps = Max ((\<lambda>sp. size_or_zero (span_size sp)) ` set sps)"
proof -
  obtain sp rest where sps: "sps = sp # rest"
    using assms(1) by (cases sps) auto
  have "float_sizes sps
      = Inr (size_or_zero (span_size sp) # map (\<lambda>sp. size_or_zero (span_size sp)) rest)"
    using float_sizes_usable [OF assms(2)] by (simp add: sps)
  then show ?thesis
    unfolding max_font_def max_try_def by (simp add: fold_max_Max sps)
qed

lemma max_font_bad:
  "\<exists>sp \<in> set sps. span_size sp = SizeBad \<Longrightarrow> max_font sps = 0"
  by (simp add: max_font_def max_try_def float_sizes_bad)

lemma round_half_even_near:
  "\<bar>of_int (round_half_even x) - x\<bar> \<le> 1 / 2"
proof -
  have "of_int \<lfloor>x\<rfloor> \<le> x" "x < of_int \<lfloor>x\<rfloor> + 1"
    by linarith+
  then show ?thesis
    unfolding round_half_even_def Let_def by (auto simp: abs_le_iff)
qed

lemma py_round2_near: "\<bar>py_round2 x - x\<bar> \<le> 1 / 200"
proof -
  have "\<bar>py_round2 x - x\<bar> = \<bar>of_int (round_half_even (x * 100)) - x * 100\<bar> / 100"
    unfolding py_round2_def by (simp add: abs_le_iff field_simps abs_if)
  also have "\<dots> \<le> (1 / 2) / 100"
    by (rule divide_right_mono [OF round_half_even_near]) simp
  finally show ?thesis by simp
qed

lemma line_headings_eq:
  "line_headings opts n lin =
     (case line_spans lin of
        None \<Rightarrow> []
      | Some sps \<Rightarrow>
          if sps = [] \<or> line_text sps = [] then []
          else (case classify opts (max_font sps) of
                  None \<Rightarrow> []
                | Some lv \<Rightarrow>
                    [Heading lv (normalize_text (line_text sps)) n (py_round2 (max_font sps))]))"
  by (simp add: line_headings_def scan_line_def Let_def split: option.splits)

lemma py_round2_hundredth: "\<exists>k::int. py_round2 x = of_int k / 100"
  unfolding py_round2_def by blast

text \<open>
  C6. For a line with at least one span, each span having a size that \<^verbatim>\<open>float()\<close> converts
  (an absent size counting as 0), the dominant font size is the maximum of the spans' sizes.
  The level of the line's heading is decided on that maximum as it is, and the heading's
  \<open>font_size\<close> is the maximum rounded to two decimals: a multiple of 1/100 at most 1/200
  away from it.
\<close>

theorem dominant_font_size:
  assumes "sps \<noteq> []" and "\<forall>sp \<in> set sps. span_size sp \<noteq> SizeBad"
  shows "max_font sps = Max ((\<lambda>sp. size_or_zero (span_size sp)) ` set sps)
       \<and> line_headings opts n (Line (Some sps)) =
           (if line_text sps = [] then []
            else (case classify opts (max_font sps) of
                    None \<Rightarrow> []
                  | Some lv \<Rightarrow>
                      [Heading lv (normalize_text (line_text sps)) n
                         (py_round2 (max_font sps))]))
       \<and> (\<exists>k::int. py_round2 (max_font sps) = of_int k / 100)
       \<and> \<bar>py_round2 (max_font sps) - max_font sps\<bar> \<le> 1 / 200"
  using max_font_usable [OF assms] py_round2_hundredth [of "max_font sps"]
    py_round2_near [of "max_font sps"] assms(1)
  by (simp add: line_headings_eq)

theorem dominant_font_size_witness:
  "[Span (Some ''a'') (SizeNum 12), Span (Some ''b'') (SizeNum (4499 / 250)),
     Span (Some ''c'') SizeMissing] \<noteq> []
   \<and> max_font [Span (Some ''a'') (SizeNum 12), Span (Some ''b'') (SizeNum (4499 / 250)),
        Span (Some ''c'') SizeMissing] = 4499 / 250
   \<and> line_headings default_options 1
         (Line (Some [Span (Some ''a'') (SizeNum 12), Span (Some ''b'') (SizeNum (4499 / 250)),
            Span (Some ''c'') SizeMissing]))
       = [Heading H2 ''a b c'' 1 18]"
proof -
  let ?sps = "[Span (Some ''a'') (SizeNum 12), Span (Some ''b'') (SizeNum (4499 / 250)),
     Span (Some ''c'') SizeMissing]"
  have h1: "?sps \<noteq> []" by simp
  have h2: "\<forall>sp \<in> set ?sps. span_size sp \<noteq> SizeBad" by simp
  note T = dominant_font_size [OF h1 h2, of default_options 1]
  have m: "max_font ?sps = 4499 / 250"
    using T [THEN conjunct1] by simp
  have t: "line_text ?sps = ''a b c''"
    by (simp add: line_text_def span_text_or_empty_def py_strip_def is_space_def)
  have n: "normalize_text ''a b c'' = ''a b c''"
    by (simp add: normalize_text_def py_strip_def py_split_Nil py_split_space py_split_word
        is_space_def)
  have c: "classify default_options (4499 / 250) = Some H2"
    by (simp add: classify_def default_options_def)
  have r: "py_round2 (4499 / 250) = 18"
    by (simp add: py_round2_def round_half_even_def)
  have "line_headings default_options 1 (Line (Some ?sps)) = [Heading H2 ''a b c'' 1 18]"
    using T [THEN conjunct2, THEN conjunct1] by (simp add: m t n c r)
  with h1 m show ?thesis by blast
qed

section \<open>Lines without a usable font size\<close>

lemma max_font_unusable:
  assumes "\<forall>sp \<in> set sps. span_size sp = SizeMissing \<or> span_size sp = SizeBad"
  shows "max_font sps = 0"
proof (cases "\<exists>sp \<in> set sps. span_size sp = SizeBad")
  case True
  then show ?thesis by (rule max_font_bad)
next
  case False
  show ?thesis
  proof (cases "sps = []")
    case True
    then show ?thesis by (simp add: max_font_def max_try_def)
  next
    case nonempty: False
    from False assms have zero: "\<forall>sp \<in> set sps. size_or_zero (span_size sp) = 0"
      by auto
    then have "(\<lambda>sp. size_or_zero (span_size sp)) ` set sps = {0}"
      using nonempty by (cases sps) auto
    moreover from False have "\<forall>sp \<in> set sps. span_size sp \<noteq> SizeBad"
      by simp
    ultimately show ?thesis
      using max_font_usable [OF nonempty] by simp
  qed
qed

lemma classify_zero:
  "0 < min_h1 opts \<Longrightarrow> 0 < min_h2 opts \<Longrightarrow> 0 < min_h3 opts \<Longrightarrow> classify opts 0 = None"
  by (simp add: classify_def)

lemma max_font_caught: "max_try sps = Inl e \<Longrightarrow> max_font sps = 0"
  by (simp add: max_font_def)

text \<open>
  C10. For a line whose spans all have an absent or a malformed size, the dominant font size
  is 0. When the three thresholds are strictly positive, as the defaults are, the line gives
  no heading: the headings collected so far stay as they are, and the lines before and after
  it in the block give theirs. An exception of the maximum, whatever the line, is turned
  into the value 0.
\<close>

theorem unusable_sizes_no_heading:
  assumes "\<forall>sp \<in> set sps. span_size sp = SizeMissing \<or> span_size sp = SizeBad"
  shows "max_font sps = 0
       \<and> (0 < min_h1 opts \<and> 0 < min_h2 opts \<and> 0 < min_h3 opts \<longrightarrow>
            line_headings opts n (Line (Some sps)) = []
            \<and> scan_line opts n (Line (Some sps)) hs = hs
            \<and> block_headings opts n (Block (Some (before @ Line (Some sps) # after)))
                = concat (map (line_headings opts n) before)
                  @ concat (map (line_headings opts n) after))
       \<and> 0 < min_h1 default_options \<and> 0 < min_h2 default_options
       \<and> 0 < min_h3 default_options
       \<and> (max_try other = Inl e \<longrightarrow> max_font other = 0)"
proof -
  have m: "max_font sps = 0"
    using assms by (rule max_font_unusable)
  have l: "line_headings opts n (Line (Some sps)) = []"
    if "0 < min_h1 opts \<and> 0 < min_h2 opts \<and> 0 < min_h3 opts"
    using that by (simp add: line_headings_eq m classify_zero)
  have d: "0 < min_h1 default_options \<and> 0 < min_h2 default_options
       \<and> 0 < min_h3 default_options"
    by (simp add: default_options_def)
  show ?thesis
    using m l d max_font_caught [of other e]
    by (simp add: scan_line_append block_headings_eq)
qed

theorem unusable_sizes_no_heading_witness:
  "max_font [Span (Some ''x'') SizeBad, Span (Some ''y'') SizeMissing] = 0
   \<and> max_try [Span (Some ''x'') SizeBad, Span (Some ''y'') SizeMissing] = Inl ValueError
   \<and> 0 < min_h1 default_options \<and> 0 < min_h2 default_options \<and> 0 < min_h3 default_options
   \<and> block_headings default_options 2
         (Block (Some [Line (Some [Span (Some ''a'') (SizeNum 12)]),
                       Line (Some [Span (Some ''x'') SizeBad, Span (Some ''y'') SizeMissing]),
                       Line (Some [Span (Some ''b'') (SizeNum 20)])]))
       = [Heading H3 ''a'' 2 12, Heading H1 ''b'' 2 20]"
proof -
  let ?sps = "[Span (Some ''x'') SizeBad, Span (Some ''y'') SizeMissing]"
  have h: "\<forall>sp \<in> set ?sps. span_size sp = SizeMissing \<or> span_size sp = SizeBad"
    by simp
  note T = unusable_sizes_no_heading [OF h, of default_options 2 "[]"
      "[Line (Some [Span (Some ''a'') (SizeNum 12)])]"
      "[Line (Some [Span (Some ''b'') (SizeNum 20)])]" ?sps ValueError]
  have e: "max_try ?sps = Inl ValueError"
    by (simp add: max_try_def)
  have d: "0 < min_h1 default_options \<and> 0 < min_h2 default_options
       \<and> 0 < min_h3 default_options"
    using T by blast
  have a: "line_headings default_options 2 (Line (Some [Span (Some ''a'') (SizeNum 12)]))
      = [Heading H3 ''a'' 2 12]"
    by (simp add: eval_simps)
  have b: "line_headings default_options 2 (Line (Some [Span (Some ''b'') (SizeNum 20)]))
      = [Heading H1 ''b'' 2 20]"
    by (simp add: eval_simps)
  have "block_headings default_options 2
         (Block (Some [Line (Some [Span (Some ''a'') (SizeNum 12)]),
                       Line (Some ?sps),
                       Line (Some [Span (Some ''b'') (SizeNum 20)])]))
       = [Heading H3 ''a'' 2 12, Heading H1 ''b'' 2 20]"
    using T d by (simp add: a b)
  moreover have "max_font ?sps = 0"
    using T by blast
  ultimately show ?thesis
    using e d by blast
qed

section \<open>Run text and normalisation\<close>

lemma py_split_nonspace:
  "w \<in> set (py_split s) \<Longrightarrow> w \<noteq> [] \<and> (\<forall>c \<in> set w. \<not> is_space c)"
proof (induction s arbitrary: w rule: py_split.induct)
  case (1 s)
  show ?case
  proof (cases "dropWhile is_space s")
    case Nil
    with "1.prems" show ?thesis by (simp add: py_split.simps [of s])
  next
    case (Cons c cs)
    have c: "\<not> is_space c"
      using Cons by (metis hd_dropWhile list.distinct(1) list.sel(1))
    from "1.prems" Cons
    have "w = takeWhile (\<lambda>x. \<not> is_space x) (c # cs)
        \<or> w \<in> set (py_split (dropWhile (\<lambda>x. \<not> is_space x) cs))"
      by (simp add: py_split.simps [of s])
    then show ?thesis
    proof
      assume w: "w = takeWhile (\<lambda>x. \<not> is_space x) (c # cs)"
      then have "\<forall>x \<in> set w. \<not> is_space x"
        by (metis (mono_tags, lifting) set_takeWhileD)
      moreover have "w \<noteq> []" using w c by simp
      ultimately show ?thesis by simp
    next
      assume "w \<in> set (py_split (dropWhile (\<lambda>x. \<not> is_space x) cs))"
      then show ?thesis by (rule "1.IH" [OF Cons])
    qed
  qed
qed

lemma py_split_append_word:
  assumes "w \<noteq> []" and "\<forall>c \<in> set w. \<not> is_space c"
  shows "py_split (w @ CHR '' '' # s) = w # py_split s"
    and "py_split w = [w]"
proof -
  obtain c cs where w: "w = c # cs" using assms(1) by (cases w) auto
  have c: "\<not> is_space c" using assms(2) w by simp
  have sp: "is_space CHR '' ''" by (simp add: is_space_def)
  have tw: "takeWhile (\<lambda>x. \<not> is_space x) (cs @ CHR '' '' # s) = cs"
    using assms(2) w sp by (simp add: takeWhile_append2 takeWhile_tail)
  have dw: "dropWhile (\<lambda>x. \<not> is_space x) (cs @ CHR '' '' # s) = CHR '' '' # s"
    using assms(2) w sp by (simp add: dropWhile_append2)
  show "py_split (w @ CHR '' '' # s) = w # py_split s"
    using c sp by (simp add: w py_split_word tw dw py_split_space)
  have tw': "takeWhile (\<lambda>x. \<not> is_space x) cs = cs"
    and dw': "dropWhile (\<lambda>x. \<not> is_space x) cs = []"
    using assms(2) w by (simp_all add: takeWhile_eq_all_conv dropWhile_eq_Nil_conv)
  show "py_split w = [w]"
    unfolding w py_split_word [OF c] tw' dw' py_split_Nil ..
qed

lemma py_split_join:
  assumes "\<forall>w \<in> set ws. w \<noteq> [] \<and> (\<forall>c \<in> set w. \<not> is_space c)"
  shows "py_split (py_join '' '' ws) = ws"
  using assms
proof (induction ws)
  case Nil
  show ?case by (simp add: py_split_Nil)
next
  case (Cons x ws)
  show ?case
  proof (cases ws)
    case Nil
    with Cons.prems show ?thesis by (simp add: py_split_append_word(2))
  next
    case (Cons y ys)
    have "py_split (py_join '' '' (x # ws)) = py_split (x @ CHR '' '' # py_join '' '' ws)"
      by (simp add: Cons)
    also have "\<dots> = x # py_split (py_join '' '' ws)"
      using Cons.prems by (intro py_split_append_word(1)) simp_all
    also have "py_split (py_join '' '' ws) = ws"
      using Cons.prems by (intro Cons.IH) simp
    finally show ?thesis .
  qed
qed

lemma successively_nonspace:
  "\<forall>c \<in> set w. \<not> is_space c
     \<Longrightarrow> successively (\<lambda>a b. \<not> (is_space a \<and> is_space b)) w"
proof (induction w)
  case Nil
  show ?case by simp
next
  case (Cons c w)
  then have "\<not> is_space c" and "successively (\<lambda>a b. \<not> (is_space a \<and> is_space b)) w"
    by simp_all
  then show ?case
    by (simp add: successively_Cons cong del: successively_cong)
qed

lemma join_words_shape:
  assumes "\<forall>w \<in> set ws. w \<noteq> [] \<and> (\<forall>c \<in> set w. \<not> is_space c)" and "ws \<noteq> []"
  shows "py_join '' '' ws \<noteq> []
       \<and> \<not> is_space (hd (py_join '' '' ws))
       \<and> \<not> is_space (last (py_join '' '' ws))
       \<and> (\<forall>c \<in> set (py_join '' '' ws). is_space c \<longrightarrow> c = CHR '' '')
       \<and> successively (\<lambda>a b. \<not> (is_space a \<and> is_space b)) (py_join '' '' ws)"
  using assms
proof (induction ws)
  case Nil
  then show ?case by simp
next
  case (Cons x ws)
  let ?P = "\<lambda>a b. \<not> (is_space a \<and> is_space b)"
  have x: "x \<noteq> []" "\<forall>c \<in> set x. \<not> is_space c"
    using Cons.prems(1) by simp_all
  have hx: "\<not> is_space (hd x)" and lx: "\<not> is_space (last x)"
    using x by simp_all
  have sx: "successively ?P x"
    using x(2) by (rule successively_nonspace)
  show ?case
  proof (cases ws)
    case Nil
    then have j: "py_join '' '' (x # ws) = x" by simp
    show ?thesis
      unfolding j using x hx lx sx by blast
  next
    case (Cons y ys)
    let ?t = "py_join '' '' ws"
    have IH: "?t \<noteq> [] \<and> \<not> is_space (hd ?t) \<and> \<not> is_space (last ?t)
       \<and> (\<forall>c \<in> set ?t. is_space c \<longrightarrow> c = CHR '' '')
       \<and> successively ?P ?t"
      using Cons.prems(1) Cons by (intro Cons.IH) simp_all
    have j: "py_join '' '' (x # ws) = x @ CHR '' '' # ?t"
      by (simp add: Cons)
    have 1: "x @ CHR '' '' # ?t \<noteq> []" by simp
    have 2: "\<not> is_space (hd (x @ CHR '' '' # ?t))"
      using x(1) hx by simp
    have 3: "\<not> is_space (last (x @ CHR '' '' # ?t))"
      using IH by simp
    have 4: "\<forall>c \<in> set (x @ CHR '' '' # ?t). is_space c \<longrightarrow> c = CHR '' ''"
      using x(2) IH by auto
    have "successively ?P (CHR '' '' # ?t)"
      using IH by (simp add: successively_Cons cong del: successively_cong)
    then have 5: "successively ?P (x @ CHR '' '' # ?t)"
      using sx lx by (simp add: successively_append_iff cong del: successively_cong)
    show ?thesis
      unfolding j using 1 2 3 4 5 by blast
  qed
qed

lemma py_strip_id:
  assumes "s = [] \<or> (\<not> is_space (hd s) \<and> \<not> is_space (last s))"
  shows "py_strip s = s"
proof -
  have 1: "dropWhile is_space s = s"
    using assms by (auto simp: dropWhile_eq_self_iff)
  have 2: "dropWhile is_space (rev s) = rev s"
    using assms by (auto simp: dropWhile_eq_self_iff hd_rev)
  show ?thesis
    unfolding py_strip_def 1 2 by simp
qed

lemma normalize_text_join: "normalize_text s = py_join '' '' (py_split s)"
proof (cases "py_split s = []")
  case True
  then show ?thesis by (simp add: normalize_text_def py_strip_def)
next
  case False
  have "\<forall>w \<in> set (py_split s). w \<noteq> [] \<and> (\<forall>c \<in> set w. \<not> is_space c)"
    using py_split_nonspace by blast
  from join_words_shape [OF this False] show ?thesis
    unfolding normalize_text_def by (intro py_strip_id) simp
qed

lemma filter_dropWhile_not: "filter (\<lambda>c. \<not> P c) (dropWhile P xs) = filter (\<lambda>c. \<not> P c) xs"
  by (induction xs) auto

lemma filter_takeWhile_dropWhile:
  "filter P xs = takeWhile P xs @ filter P (dropWhile P xs)"
  by (induction xs) auto

lemma concat_py_split: "concat (py_split s) = filter (\<lambda>c. \<not> is_space c) s"
proof (induction s rule: py_split.induct)
  case (1 s)
  show ?case
  proof (cases "dropWhile is_space s")
    case Nil
    have "py_split s = []"
      by (subst py_split.simps) (simp only: Nil list.case)
    moreover have "filter (\<lambda>c. \<not> is_space c) s = []"
      using filter_dropWhile_not [of is_space s] unfolding Nil by simp
    ultimately show ?thesis by simp
  next
    case (Cons c cs)
    have c: "\<not> is_space c"
      using Cons by (metis hd_dropWhile list.distinct(1) list.sel(1))
    have p: "py_split s = (c # takeWhile (\<lambda>x. \<not> is_space x) cs)
        # py_split (dropWhile (\<lambda>x. \<not> is_space x) cs)"
      using c by (subst py_split.simps) (simp add: Cons)
    have "filter (\<lambda>c. \<not> is_space c) s = filter (\<lambda>c. \<not> is_space c) (c # cs)"
      using filter_dropWhile_not [of is_space s] unfolding Cons by simp
    also have "\<dots> = c # filter (\<lambda>c. \<not> is_space c) cs"
      using c by simp
    also have "filter (\<lambda>c. \<not> is_space c) cs
        = takeWhile (\<lambda>x. \<not> is_space x) cs
          @ filter (\<lambda>c. \<not> is_space c) (dropWhile (\<lambda>x. \<not> is_space x) cs)"
      by (rule filter_takeWhile_dropWhile)
    finally show ?thesis
      using "1.IH" [OF Cons] by (simp add: p)
  qed
qed

lemma py_join_concat:
  "py_join sep (x # xs) = x @ concat (map (\<lambda>y. sep @ y) xs)"
  by (induction xs arbitrary: x) simp_all

lemma normalize_text_shape:
  "(\<forall>c \<in> set (normalize_text s). is_space c \<longrightarrow> c = CHR '' '')
   \<and> successively (\<lambda>a b. \<not> (is_space a \<and> is_space b)) (normalize_text s)
   \<and> (normalize_text s \<noteq> [] \<longrightarrow>
        \<not> is_space (hd (normalize_text s)) \<and> \<not> is_space (last (normalize_text s)))"
proof (cases "py_split s = []")
  case True
  then show ?thesis by (simp add: normalize_text_join)
next
  case False
  have "\<forall>w \<in> set (py_split s). w \<noteq> [] \<and> (\<forall>c \<in> set w. \<not> is_space c)"
    using py_split_nonspace by blast
  from join_words_shape [OF this False] show ?thesis
    unfolding normalize_text_join by blast
qed

lemma py_split_normalize_text: "py_split (normalize_text s) = py_split s"
  unfolding normalize_text_join
  by (rule py_split_join) (use py_split_nonspace in blast)

text \<open>
  The run text of a line is not the plain concatenation of its span texts: between two spans
  the code puts a blank, so the spans \<open>ab\<close> and \<open>cd\<close> give the heading text \<open>ab cd\<close>.
\<close>

theorem run_text_counterexample:
  "concat (map span_text_or_empty
      [Span (Some ''ab'') (SizeNum 20), Span (Some ''cd'') (SizeNum 20)]) = ''abcd''
   \<and> line_text [Span (Some ''ab'') (SizeNum 20), Span (Some ''cd'') (SizeNum 20)] = ''ab cd''
   \<and> line_headings default_options 2
         (Line (Some [Span (Some ''ab'') (SizeNum 20), Span (Some ''cd'') (SizeNum 20)]))
       = [Heading H1 ''ab cd'' 2 20]"
  by (simp add: eval_simps)

text \<open>
  C5, amended. The run text of a line is its span texts, in span order, joined with one
  blank between consecutive spans, and trimmed. A line whose run text is empty gives no
  heading. The text of a heading is the normalised run text; normalising a string joins its
  maximal runs of non-whitespace characters with single blanks: it keeps those runs and
  their order, its only whitespace characters are blanks, no two of them are adjacent, and
  none is at either end.
\<close>

theorem run_text_and_normalisation:
  "line_text (sp # rest)
     = py_strip (span_text_or_empty sp @ concat (map (\<lambda>x. '' '' @ span_text_or_empty x) rest))
   \<and> (line_text sps = [] \<longrightarrow> line_headings opts n (Line (Some sps)) = [])
   \<and> (h \<in> set (line_headings opts n (Line (Some sps)))
        \<longrightarrow> h_text h = normalize_text (line_text sps))
   \<and> normalize_text s = py_join '' '' (py_split s)
   \<and> (\<forall>w \<in> set (py_split s). w \<noteq> [] \<and> (\<forall>c \<in> set w. \<not> is_space c))
   \<and> concat (py_split s) = filter (\<lambda>c. \<not> is_space c) s
   \<and> py_split (normalize_text s) = py_split s
   \<and> (\<forall>c \<in> set (normalize_text s). is_space c \<longrightarrow> c = CHR '' '')
   \<and> successively (\<lambda>a b. \<not> (is_space a \<and> is_space b)) (normalize_text s)
   \<and> (normalize_text s \<noteq> [] \<longrightarrow>
        \<not> is_space (hd (normalize_text s)) \<and> \<not> is_space (last (normalize_text s)))"
proof -
  have 1: "line_text (sp # rest)
     = py_strip (span_text_or_empty sp @ concat (map (\<lambda>x. '' '' @ span_text_or_empty x) rest))"
    by (simp add: line_text_def py_join_concat comp_def)
  have 2: "line_text sps = [] \<longrightarrow> line_headings opts n (Line (Some sps)) = []"
    by (simp add: line_headings_eq)
  have 3: "h \<in> set (line_headings opts n (Line (Some sps)))
        \<longrightarrow> h_text h = normalize_text (line_text sps)"
    by (auto simp: line_headings_eq split: if_splits option.splits)
  have 4: "\<forall>w \<in> set (py_split s). w \<noteq> [] \<and> (\<forall>c \<in> set w. \<not> is_space c)"
    using py_split_nonspace by blast
  show ?thesis
    using 1 2 3 4 normalize_text_join [of s] concat_py_split [of s]
      py_split_normalize_text [of s] normalize_text_shape [of s]
    by blast
qed

theorem run_text_and_normalisation_witness:
  "line_text [Span (Some ''ab'') (SizeNum 20), Span (Some ''cd'') (SizeNum 20)] = ''ab cd''
   \<and> line_headings default_options 2 (Line (Some [Span (Some '' '') (SizeNum 30)])) = []
   \<and> Heading H1 ''ab cd'' 2 20 \<in> set (line_headings default_options 2
         (Line (Some [Span (Some ''ab'') (SizeNum 20), Span (Some ''cd'') (SizeNum 20)])))
   \<and> h_text (Heading H1 ''ab cd'' 2 20)
       = normalize_text
           (line_text [Span (Some ''ab'') (SizeNum 20), Span (Some ''cd'') (SizeNum 20)])
   \<and> normalize_text [CHR '' '', CHR ''a'', CHR 0x09, CHR '' '', CHR ''b'', CHR 0x0A] = ''a b''
   \<and> normalize_text ''a b'' \<noteq> []
   \<and> \<not> is_space (hd (normalize_text ''a b''))"
proof -
  let ?ab = "Span (Some ''ab'') (SizeNum 20)" and ?cd = "Span (Some ''cd'') (SizeNum 20)"
  let ?blank = "[Span (Some '' '') (SizeNum 30)]"
  let ?h = "Heading H1 ''ab cd'' 2 20"
  let ?s = "[CHR '' '', CHR ''a'', CHR 0x09, CHR '' '', CHR ''b'', CHR 0x0A]"
  note T1 = run_text_and_normalisation [of ?ab "[?cd]" ?blank default_options 2 ?h ?s]
  note T2 = run_text_and_normalisation [of ?ab "[?cd]" "[?ab, ?cd]" default_options 2 ?h "''a b''"]
  have t: "line_text [?ab, ?cd] = ''ab cd''"
    using T1 [THEN conjunct1]
    by (simp add: span_text_or_empty_def py_strip_def is_space_def)
  have b: "line_text ?blank = []"
    by (simp add: line_text_def span_text_or_empty_def py_strip_def is_space_def)
  have e: "line_headings default_options 2 (Line (Some ?blank)) = []"
    using T1 [THEN conjunct2, THEN conjunct1] b by blast
  have m: "?h \<in> set (line_headings default_options 2 (Line (Some [?ab, ?cd])))"
    by (simp add: eval_simps)
  have x: "h_text ?h = normalize_text (line_text [?ab, ?cd])"
    using T2 [THEN conjunct2, THEN conjunct2, THEN conjunct1] m by blast
  have sp: "py_split ?s = [''a'', ''b'']"
    by (simp add: py_split_Nil py_split_space py_split_word is_space_def)
  have j: "normalize_text ?s = ''a b''"
    using T1 [THEN conjunct2, THEN conjunct2, THEN conjunct2, THEN conjunct1]
    by (simp add: sp)
  have ne: "normalize_text ''a b'' \<noteq> []"
    by (simp add: normalize_text_join py_split_Nil py_split_space py_split_word is_space_def)
  have "\<not> is_space (hd (normalize_text ''a b''))"
    using T2 ne by blast
  with t e m x j ne show ?thesis by blast
qed

section \<open>Failures\<close>

text \<open>
  The call fails on the exception of the opening, on absent metadata, and on the first page
  that cannot be loaded, and in no other case.
\<close>

lemma extract_outline_fails_iff:
  "extract_outline L src opts = Inl e \<longleftrightarrow>
     (case fitz_open L src of
        Inl e' \<Rightarrow> e' = e
      | Inr doc \<Rightarrow>
          (case doc_metadata doc of
             None \<Rightarrow> e = AttributeError
           | Some entry \<Rightarrow> load_pages (doc_pages doc) = Inl e))"
  by (auto simp: extract_outline_eq resolve_title_eq split: sum.splits option.splits)



end
